theory Spec2Isabelle
  imports Main "HOL-Library.Word"
begin

section \<open>C integers\<close>

text \<open>
  The header \<^verbatim>\<open>upb/base/internal/log2.h\<close> computes with C's \<^verbatim>\<open>int\<close> and takes it to be
  32 bits wide: it subtracts from 32 the count that \<^verbatim>\<open>__builtin_clz\<close> takes on an
  \<^verbatim>\<open>unsigned int\<close>. A value of that type is an \<^typ>\<open>int\<close> between \<open>INT_MIN\<close> and
  \<open>INT_MAX\<close>. Signed arithmetic that leaves the range is undefined
  behaviour in C, not wrap-around, so an operation that can leave the range returns an option
  and \<open>None\<close> stands for "no defined result".
\<close>

definition INT_MAX :: int where
  "INT_MAX = 2147483647"

definition INT_MIN :: int where
  "INT_MIN = - 2147483648"

definition int_ok :: "int \<Rightarrow> bool" where
  "int_ok v \<longleftrightarrow> INT_MIN \<le> v \<and> v \<le> INT_MAX"

text \<open>
  \<^verbatim>\<open>E1 << E2\<close> on \<^verbatim>\<open>int\<close> (C11 6.5.7): defined when the count is in \<open>0 .. 31\<close>, \<open>E1\<close> is not
  negative and \<open>E1 * 2 ^ E2\<close> is representable; the value is then that product.
\<close>

definition shl_int :: "int \<Rightarrow> int \<Rightarrow> int option" where
  "shl_int a n =
     (if 0 \<le> n \<and> n < 32 \<and> 0 \<le> a \<and> a * 2 ^ nat n \<le> INT_MAX
      then Some (a * 2 ^ nat n) else None)"

text \<open>
  \<^verbatim>\<open>__builtin_clz (unsigned int)\<close> of GCC and Clang: the number of leading 0-bits of the
  argument, starting at the most significant bit position; the result is undefined for 0.
  \<open>clz_from k w\<close> counts the 0-bits from position \<open>k - 1\<close> downwards, up to the first 1-bit.
\<close>

fun clz_from :: "nat \<Rightarrow> 32 word \<Rightarrow> nat" where
  "clz_from 0 w = 0"
| "clz_from (Suc k) w = (if bit w k then 0 else Suc (clz_from k w))"

definition builtin_clz :: "32 word \<Rightarrow> int option" where
  "builtin_clz w = (if w = 0 then None else Some (int (clz_from 32 w)))"

section \<open>Ceiling of the binary logarithm\<close>

text \<open>
  \<^verbatim>\<open>
  UPB_INLINE int upb_Log2Ceiling(int x) {
    if (x <= 1) return 0;
  #ifdef __GNUC__
    return 32 - __builtin_clz(x - 1);
  #else
    int lg2 = 0;
    while ((1 << lg2) < x) lg2++;
    return lg2;
  #endif
  }
  \<close>
  The preprocessor picks one of two bodies. The model takes the choice as its first argument:
  \<open>True\<close> for a build where \<^verbatim>\<open>__GNUC__\<close> is defined, \<open>False\<close> otherwise.

  The loop of the second body is \<open>Log2Ceiling_loop\<close>, from the value of \<^verbatim>\<open>lg2\<close> before a test
  of the condition to the value returned. A shift that is not defined ends it with \<open>None\<close>.
\<close>

function Log2Ceiling_loop :: "int \<Rightarrow> int \<Rightarrow> int option" where
  "Log2Ceiling_loop x lg2 =
     (case shl_int 1 lg2 of
        None \<Rightarrow> None
      | Some p \<Rightarrow> if p < x then Log2Ceiling_loop x (lg2 + 1) else Some lg2)"
  by pat_completeness auto
termination
proof (relation "measure (\<lambda>(x, lg2). nat (32 - lg2))")
  show "wf (measure (\<lambda>(x, lg2). nat (32 - lg2)))"
    by simp
next
  fix x lg2 p :: int
  assume "shl_int 1 lg2 = Some p" and "p < x"
  then have "lg2 < 32"
    by (simp add: shl_int_def split: if_splits)
  then show "((x, lg2 + 1), (x, lg2)) \<in> measure (\<lambda>(x, lg2). nat (32 - lg2))"
    by simp
qed

declare Log2Ceiling_loop.simps [simp del]

definition upb_Log2Ceiling :: "bool \<Rightarrow> int \<Rightarrow> int option" where
  "upb_Log2Ceiling gnuc x =
     (if x \<le> 1 then Some 0
      else if gnuc then
        (case builtin_clz (word_of_int (x - 1)) of
           None \<Rightarrow> None
         | Some z \<Rightarrow> Some (32 - z))
      else Log2Ceiling_loop x 0)"

text \<open>
  \<^verbatim>\<open>UPB_INLINE int upb_Log2CeilingSize(int x) { return 1 << upb_Log2Ceiling(x); }\<close>
\<close>

definition upb_Log2CeilingSize :: "bool \<Rightarrow> int \<Rightarrow> int option" where
  "upb_Log2CeilingSize gnuc x =
     (case upb_Log2Ceiling gnuc x of
        None \<Rightarrow> None
      | Some n \<Rightarrow> shl_int 1 n)"

section \<open>Size classes of the value categories and field types\<close>

text \<open>
  Modelled from the spec: the enumeration \<^verbatim>\<open>upb_CType\<close> is declared in
  \<^verbatim>\<open>upb/base/descriptor_constants.h\<close>, which is not part of the sources at hand. It has the
  11 members Bool, Float, Int32, UInt32, Enum, Message, Double, Int64, UInt64, String, Bytes,
  with ordinals counted from 1 in that order; the comments of the table in
  \<^verbatim>\<open>upb_Log2CTypeSize\<close> name the same members in the same order.
\<close>

datatype upb_CType =
    kUpb_CType_Bool
  | kUpb_CType_Float
  | kUpb_CType_Int32
  | kUpb_CType_UInt32
  | kUpb_CType_Enum
  | kUpb_CType_Message
  | kUpb_CType_Double
  | kUpb_CType_Int64
  | kUpb_CType_UInt64
  | kUpb_CType_String
  | kUpb_CType_Bytes

text \<open>
  Modelled from the spec: the integer value of each member of \<^verbatim>\<open>upb_CType\<close>, its ordinal
  counted from 1.
\<close>

fun upb_CType_value :: "upb_CType \<Rightarrow> int" where
  "upb_CType_value kUpb_CType_Bool = 1"
| "upb_CType_value kUpb_CType_Float = 2"
| "upb_CType_value kUpb_CType_Int32 = 3"
| "upb_CType_value kUpb_CType_UInt32 = 4"
| "upb_CType_value kUpb_CType_Enum = 5"
| "upb_CType_value kUpb_CType_Message = 6"
| "upb_CType_value kUpb_CType_Double = 7"
| "upb_CType_value kUpb_CType_Int64 = 8"
| "upb_CType_value kUpb_CType_UInt64 = 9"
| "upb_CType_value kUpb_CType_String = 10"
| "upb_CType_value kUpb_CType_Bytes = 11"

text \<open>
  Modelled from the spec: the enumeration \<^verbatim>\<open>upb_FieldType\<close>, declared in the same absent
  header. It has the 18 members Double, Float, Int64, UInt64, Int32, Fixed64, Fixed32, Bool,
  String, Group, Message, Bytes, UInt32, Enum, SFixed32, SFixed64, SInt32, SInt64, with
  ordinals counted from 1 in that order; the comments of the table in
  \<^verbatim>\<open>upb_Log2FieldTypeSize\<close> name the same members in the same order.
\<close>

datatype upb_FieldType =
    kUpb_FieldType_Double
  | kUpb_FieldType_Float
  | kUpb_FieldType_Int64
  | kUpb_FieldType_UInt64
  | kUpb_FieldType_Int32
  | kUpb_FieldType_Fixed64
  | kUpb_FieldType_Fixed32
  | kUpb_FieldType_Bool
  | kUpb_FieldType_String
  | kUpb_FieldType_Group
  | kUpb_FieldType_Message
  | kUpb_FieldType_Bytes
  | kUpb_FieldType_UInt32
  | kUpb_FieldType_Enum
  | kUpb_FieldType_SFixed32
  | kUpb_FieldType_SFixed64
  | kUpb_FieldType_SInt32
  | kUpb_FieldType_SInt64

text \<open>
  Modelled from the spec: the integer value of each member of \<^verbatim>\<open>upb_FieldType\<close>, its
  ordinal counted from 1.
\<close>

fun upb_FieldType_value :: "upb_FieldType \<Rightarrow> int" where
  "upb_FieldType_value kUpb_FieldType_Double = 1"
| "upb_FieldType_value kUpb_FieldType_Float = 2"
| "upb_FieldType_value kUpb_FieldType_Int64 = 3"
| "upb_FieldType_value kUpb_FieldType_UInt64 = 4"
| "upb_FieldType_value kUpb_FieldType_Int32 = 5"
| "upb_FieldType_value kUpb_FieldType_Fixed64 = 6"
| "upb_FieldType_value kUpb_FieldType_Fixed32 = 7"
| "upb_FieldType_value kUpb_FieldType_Bool = 8"
| "upb_FieldType_value kUpb_FieldType_String = 9"
| "upb_FieldType_value kUpb_FieldType_Group = 10"
| "upb_FieldType_value kUpb_FieldType_Message = 11"
| "upb_FieldType_value kUpb_FieldType_Bytes = 12"
| "upb_FieldType_value kUpb_FieldType_UInt32 = 13"
| "upb_FieldType_value kUpb_FieldType_Enum = 14"
| "upb_FieldType_value kUpb_FieldType_SFixed32 = 15"
| "upb_FieldType_value kUpb_FieldType_SFixed64 = 16"
| "upb_FieldType_value kUpb_FieldType_SInt32 = 17"
| "upb_FieldType_value kUpb_FieldType_SInt64 = 18"

text \<open>
  Modelled from the spec: the reference width of the build target, 4 or 8 bytes, is fixed once
  per build; the header that resolves it, \<^verbatim>\<open>upb/port/def.inc\<close>, is not part of the sources
  at hand.
\<close>

datatype target = Ref4 | Ref8

text \<open>
  Modelled from the spec: the macro \<^verbatim>\<open>UPB_SIZE(size32, size64)\<close> of \<^verbatim>\<open>upb/port/def.inc\<close>
  selects between the two constants of a reference-sized table entry: the first on a target
  with 4-byte references, the second on a target with 8-byte references.
\<close>

definition UPB_SIZE :: "target \<Rightarrow> nat \<Rightarrow> nat \<Rightarrow> nat" where
  "UPB_SIZE t size32 size64 = (case t of Ref4 \<Rightarrow> size32 | Ref8 \<Rightarrow> size64)"

text \<open>
  Reading a C array: the element when the index is inside the array, no defined result
  otherwise.
\<close>

definition array_read :: "'a list \<Rightarrow> int \<Rightarrow> 'a option" where
  "array_read a i = (if 0 \<le> i \<and> i < int (length a) then Some (a ! nat i) else None)"

text \<open>The \<^verbatim>\<open>static const size_t size[]\<close> of \<^verbatim>\<open>upb_Log2CTypeSize\<close>.\<close>

definition CType_size :: "target \<Rightarrow> nat list" where
  "CType_size t =
     [ 0,
       2,
       2,
       2,
       2,
       UPB_SIZE t 2 3,
       3,
       3,
       3,
       UPB_SIZE t 3 4,
       UPB_SIZE t 3 4 ]"

text \<open>
  \<^verbatim>\<open>return size[c_type - 1];\<close> with the comment "-1 here because the enum is one-based but
  the table is zero-based".
\<close>

definition upb_Log2CTypeSize :: "target \<Rightarrow> upb_CType \<Rightarrow> int option" where
  "upb_Log2CTypeSize t c_type =
     map_option int (array_read (CType_size t) (upb_CType_value c_type - 1))"

text \<open>The \<^verbatim>\<open>static const size_t size[]\<close> of \<^verbatim>\<open>upb_Log2FieldTypeSize\<close>.\<close>

definition FieldType_size :: "target \<Rightarrow> nat list" where
  "FieldType_size t =
     [ 3,
       2,
       3,
       3,
       2,
       3,
       2,
       0,
       UPB_SIZE t 3 4,
       UPB_SIZE t 2 3,
       UPB_SIZE t 2 3,
       UPB_SIZE t 3 4,
       2,
       2,
       2,
       3,
       2,
       3 ]"

definition upb_Log2FieldTypeSize :: "target \<Rightarrow> upb_FieldType \<Rightarrow> int option" where
  "upb_Log2FieldTypeSize t field_type =
     map_option int (array_read (FieldType_size t) (upb_FieldType_value field_type - 1))"

section \<open>Properties of the logarithm\<close>

lemma bit_top_iff:
  fixes w :: "32 word"
  assumes "unat w < 2 ^ Suc k"
  shows "bit w k \<longleftrightarrow> 2 ^ k \<le> unat w"
proof -
  have b: "bit w k \<longleftrightarrow> odd (unat w div 2 ^ k)"
    by (simp add: bit_unsigned_iff flip: bit_nat_def)
  have lt: "unat w div 2 ^ k < 2"
    using assms by (simp add: less_mult_imp_div_less)
  show ?thesis
  proof (cases "2 ^ k \<le> unat w")
    case True
    then have "0 < unat w div 2 ^ k"
      by (simp add: div_greater_zero_iff)
    with lt have "unat w div 2 ^ k = 1"
      by linarith
    with True show ?thesis
      by (simp add: b)
  next
    case False
    then show ?thesis
      by (simp add: b)
  qed
qed

lemma clz_from_bounds:
  "unat w < 2 ^ k \<Longrightarrow> w \<noteq> 0 \<Longrightarrow>
     clz_from k w < k \<and> 2 ^ (k - Suc (clz_from k w)) \<le> unat w \<and> unat w < 2 ^ (k - clz_from k w)"
proof (induction k)
  case 0
  then have "unat w = 0" by simp
  with 0 show ?case by (simp add: unat_eq_0)
next
  case (Suc k)
  show ?case
  proof (cases "bit w k")
    case True
    with Suc.prems show ?thesis
      by (simp add: bit_top_iff)
  next
    case False
    with Suc.prems have "unat w < 2 ^ k"
      by (simp add: bit_top_iff)
    from Suc.IH [OF this Suc.prems(2)] False show ?thesis
      by simp
  qed
qed


lemma shl_int_one:
  "k \<le> 30 \<Longrightarrow> shl_int 1 (int k) = Some (2 ^ k)"
proof -
  assume k: "k \<le> 30"
  then have "(2::int) ^ k \<le> 2 ^ 30"
    by (rule power_increasing) simp
  with k show ?thesis
    by (simp add: shl_int_def INT_MAX_def)
qed

lemma Log2Ceiling_loop_from:
  "k \<le> 30 \<Longrightarrow> x \<le> 2 ^ 30 \<Longrightarrow> k = 0 \<or> 2 ^ (k - 1) < x \<Longrightarrow>
     \<exists>n. k \<le> n \<and> n \<le> 30 \<and> Log2Ceiling_loop x (int k) = Some (int n) \<and>
         x \<le> 2 ^ n \<and> (n = 0 \<or> 2 ^ (n - 1) < x)"
proof (induction "30 - k" arbitrary: k)
  case 0
  then have k: "k = 30" by simp
  have s: "shl_int 1 (int k) = Some (2 ^ k)"
    using "0.prems"(1) by (rule shl_int_one)
  have le: "x \<le> 2 ^ k"
    using "0.prems"(2) k by simp
  then have "Log2Ceiling_loop x (int k) = Some (int k)"
    by (subst Log2Ceiling_loop.simps) (simp add: s)
  with "0.prems" le show ?case
    by (intro exI [of _ k]) auto
next
  case (Suc d)
  show ?case
  proof (cases "2 ^ k < x")
    case True
    from Suc.hyps(2) have d: "d = 30 - Suc k" and k: "Suc k \<le> 30"
      by simp_all
    from True have "Suc k = 0 \<or> 2 ^ (Suc k - 1) < x"
      by simp
    from Suc.hyps(1) [OF d k Suc.prems(2) this]
    obtain n where n: "Suc k \<le> n" "n \<le> 30" "Log2Ceiling_loop x (int (Suc k)) = Some (int n)"
      "x \<le> 2 ^ n" "n = 0 \<or> 2 ^ (n - 1) < x"
      by blast
    have s: "shl_int 1 (int k) = Some (2 ^ k)"
      using Suc.prems(1) by (rule shl_int_one)
    from True have "Log2Ceiling_loop x (int k) = Log2Ceiling_loop x (int k + 1)"
      by (subst Log2Ceiling_loop.simps) (simp add: s)
    also have "int k + 1 = int (Suc k)"
      by simp
    finally have "Log2Ceiling_loop x (int k) = Log2Ceiling_loop x (int (Suc k))" .
    with n show ?thesis
      by (intro exI [of _ n]) simp
  next
    case False
    have s: "shl_int 1 (int k) = Some (2 ^ k)"
      using Suc.prems(1) by (rule shl_int_one)
    from False have "Log2Ceiling_loop x (int k) = Some (int k)"
      by (subst Log2Ceiling_loop.simps) (simp add: s)
    with False Suc.prems show ?thesis
      by (intro exI [of _ k]) auto
  qed
qed

lemma unat_of_pred:
  assumes "1 < x" and "x \<le> INT_MAX"
  shows "unat (word_of_int (x - 1) :: 32 word) = nat (x - 1)"
proof -
  from assms have "0 \<le> x - 1" and "x - 1 < 2 ^ LENGTH(32)"
    by (simp_all add: INT_MAX_def)
  then have "take_bit LENGTH(32) (x - 1) = x - 1"
    by (rule take_bit_int_eq_self)
  then have "uint (word_of_int (x - 1) :: 32 word) = x - 1"
    by (simp only: uint_word_of_int_eq)
  then show ?thesis
    by (simp only: unat_eq_nat_uint)
qed

lemma Log2Ceiling_fast:
  assumes "1 < x" and "x \<le> INT_MAX"
  shows "\<exists>n. upb_Log2Ceiling True x = Some (int n) \<and> 0 < n \<and> n \<le> 31 \<and>
           2 ^ (n - 1) < x \<and> x \<le> 2 ^ n"
proof -
  define w :: "32 word" where "w = word_of_int (x - 1)"
  have u: "unat w = nat (x - 1)"
    unfolding w_def using assms by (rule unat_of_pred)
  with assms have nz: "w \<noteq> 0"
    by (auto simp: unat_eq_0 [symmetric])
  have "unat w < 2 ^ 32"
    using u assms by (simp add: INT_MAX_def nat_less_iff)
  from clz_from_bounds [OF this nz]
  have c: "clz_from 32 w < 32" "2 ^ (32 - Suc (clz_from 32 w)) \<le> unat w"
    "unat w < 2 ^ (32 - clz_from 32 w)"
    by simp_all
  define n where "n = 32 - clz_from 32 w"
  have "upb_Log2Ceiling True x = Some (32 - int (clz_from 32 w))"
    unfolding upb_Log2Ceiling_def builtin_clz_def w_def [symmetric]
    using assms(1) nz by simp
  then have r: "upb_Log2Ceiling True x = Some (int n)"
    using c(1) by (simp add: n_def)
  have pos: "0 < n"
    using c(1) by (simp add: n_def)
  have lo: "2 ^ (n - 1) \<le> nat (x - 1)" and hi: "nat (x - 1) < 2 ^ n"
    using c(2,3) u by (simp_all add: n_def)
  from lo have "int (2 ^ (n - 1)) \<le> x - 1"
    using assms(1) by linarith
  then have lo': "2 ^ (n - 1) < x"
    by simp
  from hi have "x - 1 < int (2 ^ n)"
    using assms(1) by linarith
  then have hi': "x \<le> 2 ^ n"
    by simp
  have "n \<le> 31"
  proof (rule ccontr)
    assume "\<not> n \<le> 31"
    then have "31 \<le> n - 1" by simp
    then have "(2::int) ^ 31 \<le> 2 ^ (n - 1)"
      by (rule power_increasing) simp
    with lo' assms(2) show False
      by (simp add: INT_MAX_def)
  qed
  with r pos lo' hi' show ?thesis
    by blast
qed

lemma Log2Ceiling_slow:
  assumes "1 < x" and "x \<le> 2 ^ 30"
  shows "\<exists>n. upb_Log2Ceiling False x = Some (int n) \<and> 0 < n \<and> n \<le> 30 \<and>
           2 ^ (n - 1) < x \<and> x \<le> 2 ^ n"
proof -
  from Log2Ceiling_loop_from [of 0 x] assms(2)
  obtain n where n: "n \<le> 30" "Log2Ceiling_loop x 0 = Some (int n)" "x \<le> 2 ^ n"
    "n = 0 \<or> 2 ^ (n - 1) < x"
    by auto
  from n(3) assms(1) have "n \<noteq> 0"
    by (cases n) simp_all
  with n assms(1) show ?thesis
    by (intro exI [of _ n]) (simp add: upb_Log2Ceiling_def)
qed


lemma pow2_bracket_le:
  fixes x :: int
  assumes "0 < n" and "2 ^ (n - 1) < x" and "x \<le> 2 ^ m"
  shows "n \<le> m"
proof -
  from assms(2,3) have "(2::int) ^ (n - 1) < 2 ^ m"
    by (rule less_le_trans)
  then have "n - 1 < m"
    by (simp add: power_strict_increasing_iff)
  with assms(1) show ?thesis
    by simp
qed

lemma Log2Ceiling_bracket:
  assumes "1 < x" and "x \<le> 2 ^ 30"
  shows "\<exists>n. upb_Log2Ceiling gnuc x = Some (int n) \<and> 0 < n \<and> n \<le> 30 \<and>
           2 ^ (n - 1) < x \<and> x \<le> 2 ^ n"
proof (cases gnuc)
  case True
  from assms(2) have "x \<le> INT_MAX"
    by (simp add: INT_MAX_def)
  from Log2Ceiling_fast [OF assms(1) this]
  obtain n where n: "upb_Log2Ceiling True x = Some (int n)" "0 < n" "2 ^ (n - 1) < x" "x \<le> 2 ^ n"
    by blast
  from n(2,3) assms(2) have "n \<le> 30"
    by (rule pow2_bracket_le)
  with n True show ?thesis
    by (intro exI [of _ n]) simp
next
  case False
  with Log2Ceiling_slow [OF assms] show ?thesis
    by simp
qed

lemma Log2Ceiling_total:
  assumes "x \<le> 2 ^ 30"
  shows "\<exists>n. upb_Log2Ceiling gnuc x = Some (int n) \<and> n \<le> 30 \<and> x \<le> 2 ^ n \<and>
           (if x \<le> 1 then n = 0 else 0 < n \<and> 2 ^ (n - 1) < x)"
proof (cases "x \<le> 1")
  case True
  then have "upb_Log2Ceiling gnuc x = Some (int 0)"
    by (simp add: upb_Log2Ceiling_def)
  with True show ?thesis
    by (intro exI [of _ 0]) simp
next
  case False
  then have "1 < x" by simp
  from Log2Ceiling_bracket [OF this assms, of gnuc] False show ?thesis
    by auto
qed

lemma Log2CeilingSize_of_Log2Ceiling:
  assumes "upb_Log2Ceiling gnuc x = Some (int n)" and "n \<le> 30"
  shows "upb_Log2CeilingSize gnuc x = Some (2 ^ n)"
  using assms by (simp add: upb_Log2CeilingSize_def shl_int_one)

lemma Log2Ceiling_pow2:
  assumes "n \<le> 30"
  shows "upb_Log2Ceiling gnuc (2 ^ n) = Some (int n)"
proof (cases n)
  case 0
  then show ?thesis
    by (simp add: upb_Log2Ceiling_def)
next
  case (Suc k)
  then have gt: "1 < (2::int) ^ n"
    by (intro one_less_power) simp_all
  from assms have le: "(2::int) ^ n \<le> 2 ^ 30"
    by (rule power_increasing) simp
  from Log2Ceiling_bracket [OF gt le, of gnuc]
  obtain m where m: "upb_Log2Ceiling gnuc (2 ^ n) = Some (int m)" "0 < m"
    "(2::int) ^ (m - 1) < 2 ^ n" "(2::int) ^ n \<le> 2 ^ m"
    by blast
  from m(3) have "m - 1 < n"
    by (simp add: power_strict_increasing_iff)
  moreover from m(4) have "n \<le> m"
    by (simp add: power_increasing_iff)
  ultimately have "m = n"
    using m(2) by simp
  with m(1) show ?thesis
    by simp
qed

lemma upb_Log2Ceiling_paths_agree:
  assumes "1 < x" and "x \<le> 2 ^ 30"
  shows "\<exists>n. upb_Log2Ceiling True x = Some n \<and> upb_Log2Ceiling False x = Some n"
proof -
  from Log2Ceiling_bracket [OF assms, of True]
  obtain n where n: "upb_Log2Ceiling True x = Some (int n)" "0 < n" "2 ^ (n - 1) < x" "x \<le> 2 ^ n"
    by blast
  from Log2Ceiling_bracket [OF assms, of False]
  obtain m where m: "upb_Log2Ceiling False x = Some (int m)" "0 < m" "2 ^ (m - 1) < x" "x \<le> 2 ^ m"
    by blast
  have "n \<le> m"
    using n(2,3) m(4) by (rule pow2_bracket_le)
  moreover have "m \<le> n"
    using m(2,3) n(4) by (rule pow2_bracket_le)
  ultimately have "n = m"
    by simp
  with n(1) m(1) show ?thesis
    by simp
qed

section \<open>Properties of the tables\<close>

lemma UNIV_CType:
  "(UNIV :: upb_CType set) =
     {kUpb_CType_Bool, kUpb_CType_Float, kUpb_CType_Int32, kUpb_CType_UInt32, kUpb_CType_Enum,
      kUpb_CType_Message, kUpb_CType_Double, kUpb_CType_Int64, kUpb_CType_UInt64,
      kUpb_CType_String, kUpb_CType_Bytes}"
proof -
  have "c \<in> {kUpb_CType_Bool, kUpb_CType_Float, kUpb_CType_Int32, kUpb_CType_UInt32,
      kUpb_CType_Enum, kUpb_CType_Message, kUpb_CType_Double, kUpb_CType_Int64,
      kUpb_CType_UInt64, kUpb_CType_String, kUpb_CType_Bytes}" for c
    by (cases c) simp_all
  then show ?thesis
    by blast
qed

lemma card_CType: "card (UNIV :: upb_CType set) = 11"
  by (simp add: UNIV_CType)

lemma CType_value_range: "1 \<le> upb_CType_value c \<and> upb_CType_value c \<le> 11"
  by (cases c) simp_all

lemma CType_value_inj: "inj upb_CType_value"
proof (rule injI)
  fix a b
  assume "upb_CType_value a = upb_CType_value b"
  then show "a = b"
    by (cases a; cases b) simp_all
qed

lemma CType_size_length: "length (CType_size t) = 11"
  by (simp add: CType_size_def)

lemma CType_index_bij:
  "bij_betw (\<lambda>c. nat (upb_CType_value c - 1)) UNIV {..<length (CType_size t)}"
proof -
  have inj: "inj (\<lambda>c. nat (upb_CType_value c - 1))"
  proof (rule injI)
    fix a b
    assume "nat (upb_CType_value a - 1) = nat (upb_CType_value b - 1)"
    with CType_value_range [of a] CType_value_range [of b]
    have "upb_CType_value a = upb_CType_value b"
      by linarith
    then show "a = b"
      by (rule injD [OF CType_value_inj])
  qed
  have "nat (upb_CType_value c - 1) < 11" for c
    using CType_value_range [of c] by linarith
  then have "(\<lambda>c. nat (upb_CType_value c - 1)) ` UNIV \<subseteq> {..<length (CType_size t)}"
    by (auto simp: CType_size_length)
  moreover have "card ((\<lambda>c. nat (upb_CType_value c - 1)) ` (UNIV :: upb_CType set)) = 11"
    by (simp add: card_image [OF inj] card_CType)
  ultimately have "(\<lambda>c. nat (upb_CType_value c - 1)) ` UNIV = {..<length (CType_size t)}"
    by (intro card_subset_eq) (simp_all add: CType_size_length)
  with inj show ?thesis
    by (simp add: bij_betw_def)
qed

lemma upb_Log2CTypeSize_lookup:
  "upb_Log2CTypeSize t c = Some (int (CType_size t ! nat (upb_CType_value c - 1)))"
  using CType_value_range [of c]
  by (simp add: upb_Log2CTypeSize_def array_read_def CType_size_def)


lemma UNIV_FieldType:
  "(UNIV :: upb_FieldType set) =
     {kUpb_FieldType_Double, kUpb_FieldType_Float, kUpb_FieldType_Int64, kUpb_FieldType_UInt64,
      kUpb_FieldType_Int32, kUpb_FieldType_Fixed64, kUpb_FieldType_Fixed32, kUpb_FieldType_Bool,
      kUpb_FieldType_String, kUpb_FieldType_Group, kUpb_FieldType_Message, kUpb_FieldType_Bytes,
      kUpb_FieldType_UInt32, kUpb_FieldType_Enum, kUpb_FieldType_SFixed32,
      kUpb_FieldType_SFixed64, kUpb_FieldType_SInt32, kUpb_FieldType_SInt64}"
proof -
  have "f \<in> {kUpb_FieldType_Double, kUpb_FieldType_Float, kUpb_FieldType_Int64,
      kUpb_FieldType_UInt64, kUpb_FieldType_Int32, kUpb_FieldType_Fixed64,
      kUpb_FieldType_Fixed32, kUpb_FieldType_Bool, kUpb_FieldType_String, kUpb_FieldType_Group,
      kUpb_FieldType_Message, kUpb_FieldType_Bytes, kUpb_FieldType_UInt32, kUpb_FieldType_Enum,
      kUpb_FieldType_SFixed32, kUpb_FieldType_SFixed64, kUpb_FieldType_SInt32,
      kUpb_FieldType_SInt64}" for f
    by (cases f) simp_all
  then show ?thesis
    by blast
qed

lemma card_FieldType: "card (UNIV :: upb_FieldType set) = 18"
  by (simp add: UNIV_FieldType)

lemma FieldType_value_range: "1 \<le> upb_FieldType_value f \<and> upb_FieldType_value f \<le> 18"
  by (cases f) simp_all

lemma FieldType_value_inj: "inj upb_FieldType_value"
proof (rule injI)
  fix a b
  assume "upb_FieldType_value a = upb_FieldType_value b"
  then show "a = b"
    by (cases a; cases b) simp_all
qed

lemma FieldType_size_length: "length (FieldType_size t) = 18"
  by (simp add: FieldType_size_def)

lemma FieldType_index_bij:
  "bij_betw (\<lambda>f. nat (upb_FieldType_value f - 1)) UNIV {..<length (FieldType_size t)}"
proof -
  have inj: "inj (\<lambda>f. nat (upb_FieldType_value f - 1))"
  proof (rule injI)
    fix a b
    assume "nat (upb_FieldType_value a - 1) = nat (upb_FieldType_value b - 1)"
    with FieldType_value_range [of a] FieldType_value_range [of b]
    have "upb_FieldType_value a = upb_FieldType_value b"
      by linarith
    then show "a = b"
      by (rule injD [OF FieldType_value_inj])
  qed
  have "nat (upb_FieldType_value f - 1) < 18" for f
    using FieldType_value_range [of f] by linarith
  then have "(\<lambda>f. nat (upb_FieldType_value f - 1)) ` UNIV \<subseteq> {..<length (FieldType_size t)}"
    by (auto simp: FieldType_size_length)
  moreover have "card ((\<lambda>f. nat (upb_FieldType_value f - 1)) ` (UNIV :: upb_FieldType set)) = 18"
    by (simp add: card_image [OF inj] card_FieldType)
  ultimately have "(\<lambda>f. nat (upb_FieldType_value f - 1)) ` UNIV = {..<length (FieldType_size t)}"
    by (intro card_subset_eq) (simp_all add: FieldType_size_length)
  with inj show ?thesis
    by (simp add: bij_betw_def)
qed

lemma upb_Log2FieldTypeSize_lookup:
  "upb_Log2FieldTypeSize t f = Some (int (FieldType_size t ! nat (upb_FieldType_value f - 1)))"
  using FieldType_value_range [of f]
  by (simp add: upb_Log2FieldTypeSize_def array_read_def FieldType_size_def)

section \<open>The claims\<close>

text \<open>
  C1. For every integer \<open>x\<close> from 1 to \<open>2 ^ 30\<close>, on either build, \<^verbatim>\<open>upb_Log2Ceiling(x)\<close>
  returns the smallest \<open>n\<close> with \<open>x \<le> 2 ^ n\<close>: \<open>x \<le> 2 ^ n\<close> holds, no smaller exponent
  reaches \<open>x\<close>, and when \<open>1 < x\<close> also \<open>2 ^ (n - 1) < x\<close>.
\<close>

theorem upb_Log2Ceiling_least:
  assumes "1 \<le> x" and "x \<le> 2 ^ 30"
  shows "\<exists>n. upb_Log2Ceiling gnuc x = Some (int n) \<and> x \<le> 2 ^ n \<and>
           (\<forall>m. x \<le> 2 ^ m \<longrightarrow> n \<le> m) \<and> (1 < x \<longrightarrow> 0 < n \<and> 2 ^ (n - 1) < x)"
proof -
  from Log2Ceiling_total [OF assms(2), of gnuc]
  obtain n where n: "upb_Log2Ceiling gnuc x = Some (int n)" "x \<le> 2 ^ n"
    "if x \<le> 1 then n = 0 else 0 < n \<and> 2 ^ (n - 1) < x"
    by blast
  have "n \<le> m" if "x \<le> 2 ^ m" for m
  proof (cases "x \<le> 1")
    case True
    with n(3) show ?thesis by simp
  next
    case False
    with n(3) have "0 < n" and "2 ^ (n - 1) < x"
      by simp_all
    then show ?thesis
      using that by (rule pow2_bracket_le)
  qed
  with n show ?thesis
    by (intro exI [of _ n]) auto
qed

theorem upb_Log2Ceiling_least_witness:
  "(1::int) \<le> 5 \<and> (5::int) \<le> 2 ^ 30 \<and>
   (\<exists>n. upb_Log2Ceiling True 5 = Some (int n) \<and> (5::int) \<le> 2 ^ n \<and>
      (\<forall>m. (5::int) \<le> 2 ^ m \<longrightarrow> n \<le> m) \<and> 0 < n \<and> (2::int) ^ (n - 1) < 5)"
  using upb_Log2Ceiling_least [of 5 True] by simp

text \<open>
  C2. The two bodies of \<^verbatim>\<open>upb_Log2Ceiling\<close> are meant to return the same result for every
  \<open>x > 1\<close> that fits a 32-bit signed integer. They do up to \<open>2 ^ 30\<close>
  (\<open>upb_Log2Ceiling_paths_agree\<close>) and not beyond: at \<open>x = 2 ^ 30 + 1\<close>, which fits, the body
  with \<^verbatim>\<open>__builtin_clz\<close> returns 31, while the loop tests \<^verbatim>\<open>1 << 30\<close>, finds it smaller than
  \<open>x\<close> and goes on to \<^verbatim>\<open>1 << 31\<close>, which is not representable in \<^verbatim>\<open>int\<close>, so it has no
  defined result.
\<close>

theorem upb_Log2Ceiling_paths_differ:
  "int_ok 1073741825 \<and> 1 < (1073741825::int) \<and>
   upb_Log2Ceiling True 1073741825 = Some 31 \<and>
   upb_Log2Ceiling False 1073741825 = None"
  by code_simp

text \<open>
  C3. For every integer \<open>x\<close> from 0 to \<open>2 ^ 30\<close>, on either build,
  \<^verbatim>\<open>upb_Log2CeilingSize(x)\<close> returns \<open>2 ^ n\<close> for the \<open>n\<close> that \<^verbatim>\<open>upb_Log2Ceiling(x)\<close>
  returns; this is the smallest power of two that is at least \<open>x\<close>, and it is 1 whenever
  \<open>x \<le> 1\<close>.
\<close>

theorem upb_Log2CeilingSize_pow2:
  assumes "0 \<le> x" and "x \<le> 2 ^ 30"
  shows "\<exists>n. upb_Log2Ceiling gnuc x = Some (int n) \<and>
           upb_Log2CeilingSize gnuc x = Some (2 ^ n) \<and> x \<le> 2 ^ n \<and>
           (\<forall>m. x \<le> 2 ^ m \<longrightarrow> (2::int) ^ n \<le> 2 ^ m) \<and>
           (x \<le> 1 \<longrightarrow> upb_Log2CeilingSize gnuc x = Some 1)"
proof -
  from Log2Ceiling_total [OF assms(2), of gnuc]
  obtain n where n: "upb_Log2Ceiling gnuc x = Some (int n)" "n \<le> 30" "x \<le> 2 ^ n"
    "if x \<le> 1 then n = 0 else 0 < n \<and> 2 ^ (n - 1) < x"
    by blast
  from n(1,2) have sz: "upb_Log2CeilingSize gnuc x = Some (2 ^ n)"
    by (rule Log2CeilingSize_of_Log2Ceiling)
  have "(2::int) ^ n \<le> 2 ^ m" if "x \<le> 2 ^ m" for m
  proof -
    have "n \<le> m"
    proof (cases "x \<le> 1")
      case True
      with n(4) show ?thesis by simp
    next
      case False
      with n(4) have "0 < n" and "2 ^ (n - 1) < x"
        by simp_all
      then show ?thesis
        using that by (rule pow2_bracket_le)
    qed
    then show ?thesis
      by (rule power_increasing) simp
  qed
  moreover have "upb_Log2CeilingSize gnuc x = Some 1" if "x \<le> 1"
    using that n(4) sz by simp
  ultimately show ?thesis
    using n(1,3) sz by (intro exI [of _ n]) blast
qed

theorem upb_Log2CeilingSize_pow2_witness:
  "(0::int) \<le> 1025 \<and> (1025::int) \<le> 2 ^ 30 \<and>
   (\<exists>n. upb_Log2Ceiling False 1025 = Some (int n) \<and>
      upb_Log2CeilingSize False 1025 = Some (2 ^ n) \<and> (1025::int) \<le> 2 ^ n \<and>
      (\<forall>m. (1025::int) \<le> 2 ^ m \<longrightarrow> (2::int) ^ n \<le> 2 ^ m)) \<and>
   (0::int) \<le> 0 \<and> (0::int) \<le> 1 \<and> upb_Log2CeilingSize True 0 = Some 1"
proof -
  have "upb_Log2CeilingSize True 0 = Some 1"
    using upb_Log2CeilingSize_pow2 [of 0 True] by auto
  then show ?thesis
    using upb_Log2CeilingSize_pow2 [of 1025 False] by simp
qed

text \<open>
  C4. On either build \<^verbatim>\<open>upb_Log2Ceiling\<close> returns 0 for every \<open>x \<le> 1\<close>: for 0, for 1 and
  for every negative \<open>x\<close>.
\<close>

theorem upb_Log2Ceiling_clamp:
  "(x \<le> 1 \<longrightarrow> upb_Log2Ceiling gnuc x = Some 0) \<and>
   upb_Log2Ceiling gnuc 0 = Some 0 \<and> upb_Log2Ceiling gnuc 1 = Some 0 \<and>
   (x < 0 \<longrightarrow> upb_Log2Ceiling gnuc x = Some 0)"
  by (simp add: upb_Log2Ceiling_def)

theorem upb_Log2Ceiling_clamp_witness:
  "(- 7 :: int) \<le> 1 \<and> (- 7 :: int) < 0 \<and> upb_Log2Ceiling False (- 7) = Some 0"
  using upb_Log2Ceiling_clamp [of "- 7" False] by simp

text \<open>
  C5. On a target whose references are 4 bytes wide, \<^verbatim>\<open>upb_Log2CTypeSize\<close> returns 2 for
  Message and 3 for String; on a target whose references are 8 bytes wide it returns 3 and 4.
\<close>

theorem upb_Log2CTypeSize_reference_sized:
  "upb_Log2CTypeSize Ref4 kUpb_CType_Message = Some 2 \<and>
   upb_Log2CTypeSize Ref4 kUpb_CType_String = Some 3 \<and>
   upb_Log2CTypeSize Ref8 kUpb_CType_Message = Some 3 \<and>
   upb_Log2CTypeSize Ref8 kUpb_CType_String = Some 4"
  by (simp add: upb_Log2CTypeSize_def array_read_def CType_size_def UPB_SIZE_def)

text \<open>
  C6. On either target \<^verbatim>\<open>upb_Log2FieldTypeSize\<close> returns 3 for Double, 2 for Float, 0 for
  Bool, 2 for Fixed32 and 3 for Fixed64. For every field type \<open>f\<close> the call is a read of the
  table at index "ordinal of \<open>f\<close> minus 1", which lies inside the table, so the lookup is
  total.
\<close>

theorem upb_Log2FieldTypeSize_values:
  "upb_Log2FieldTypeSize t kUpb_FieldType_Double = Some 3 \<and>
   upb_Log2FieldTypeSize t kUpb_FieldType_Float = Some 2 \<and>
   upb_Log2FieldTypeSize t kUpb_FieldType_Bool = Some 0 \<and>
   upb_Log2FieldTypeSize t kUpb_FieldType_Fixed32 = Some 2 \<and>
   upb_Log2FieldTypeSize t kUpb_FieldType_Fixed64 = Some 3 \<and>
   nat (upb_FieldType_value f - 1) < length (FieldType_size t) \<and>
   upb_Log2FieldTypeSize t f = Some (int (FieldType_size t ! nat (upb_FieldType_value f - 1)))"
proof -
  have "nat (upb_FieldType_value f - 1) < length (FieldType_size t)"
    unfolding FieldType_size_length using FieldType_value_range [of f] by linarith
  moreover have "upb_Log2FieldTypeSize t kUpb_FieldType_Double = Some 3"
    and "upb_Log2FieldTypeSize t kUpb_FieldType_Float = Some 2"
    and "upb_Log2FieldTypeSize t kUpb_FieldType_Bool = Some 0"
    and "upb_Log2FieldTypeSize t kUpb_FieldType_Fixed32 = Some 2"
    and "upb_Log2FieldTypeSize t kUpb_FieldType_Fixed64 = Some 3"
    by (simp_all add: upb_Log2FieldTypeSize_def array_read_def FieldType_size_def)
  ultimately show ?thesis
    by (simp add: upb_Log2FieldTypeSize_lookup)
qed

text \<open>
  C7. On either target \<^verbatim>\<open>upb_Log2CTypeSize\<close> returns 0 for Bool, 3 for Double and 2 for
  Float. For every value category \<open>c\<close> the call is a read of the table at index "ordinal of
  \<open>c\<close> minus 1", which lies inside the table, so the lookup is total.
\<close>

theorem upb_Log2CTypeSize_values:
  "upb_Log2CTypeSize t kUpb_CType_Bool = Some 0 \<and>
   upb_Log2CTypeSize t kUpb_CType_Double = Some 3 \<and>
   upb_Log2CTypeSize t kUpb_CType_Float = Some 2 \<and>
   nat (upb_CType_value c - 1) < length (CType_size t) \<and>
   upb_Log2CTypeSize t c = Some (int (CType_size t ! nat (upb_CType_value c - 1)))"
proof -
  have "nat (upb_CType_value c - 1) < length (CType_size t)"
    unfolding CType_size_length using CType_value_range [of c] by linarith
  moreover have "upb_Log2CTypeSize t kUpb_CType_Bool = Some 0"
    and "upb_Log2CTypeSize t kUpb_CType_Double = Some 3"
    and "upb_Log2CTypeSize t kUpb_CType_Float = Some 2"
    by (simp_all add: upb_Log2CTypeSize_def array_read_def CType_size_def)
  ultimately show ?thesis
    by (simp add: upb_Log2CTypeSize_lookup)
qed

text \<open>
  C8. On either target the table of \<^verbatim>\<open>upb_Log2CTypeSize\<close> has exactly 11 entries and the table
  of \<^verbatim>\<open>upb_Log2FieldTypeSize\<close> exactly 18, as many as the enumeration has members. Taking a
  member to "its ordinal minus 1" is a bijection between the members and the indices of the
  table: every member has one entry, no entry is left over and no two members share one.
\<close>

theorem table_lengths:
  "length (CType_size t) = 11 \<and> length (FieldType_size t) = 18 \<and>
   card (UNIV :: upb_CType set) = length (CType_size t) \<and>
   card (UNIV :: upb_FieldType set) = length (FieldType_size t) \<and>
   bij_betw (\<lambda>c. nat (upb_CType_value c - 1)) UNIV {..<length (CType_size t)} \<and>
   bij_betw (\<lambda>f. nat (upb_FieldType_value f - 1)) UNIV {..<length (FieldType_size t)}"
  by (simp add: CType_size_length FieldType_size_length card_CType card_FieldType
      CType_index_bij [of t, unfolded CType_size_length]
      FieldType_index_bij [of t, unfolded FieldType_size_length])

text \<open>
  C9. \<^verbatim>\<open>upb_Log2Ceiling\<close> is monotonically non-decreasing between 0 and \<open>2 ^ 30\<close>: for
  \<open>0 \<le> x \<le> y \<le> 2 ^ 30\<close> both calls return, and the result for \<open>x\<close> is at most the result
  for \<open>y\<close>.
\<close>

theorem upb_Log2Ceiling_mono:
  assumes "0 \<le> x" and "x \<le> y" and "y \<le> 2 ^ 30"
  shows "\<exists>a b. upb_Log2Ceiling gnuc x = Some a \<and> upb_Log2Ceiling gnuc y = Some b \<and> a \<le> b"
proof -
  from assms(2,3) have "x \<le> 2 ^ 30"
    by simp
  from Log2Ceiling_total [OF this, of gnuc]
  obtain n where n: "upb_Log2Ceiling gnuc x = Some (int n)"
    "if x \<le> 1 then n = 0 else 0 < n \<and> 2 ^ (n - 1) < x"
    by blast
  from Log2Ceiling_total [OF assms(3), of gnuc]
  obtain m where m: "upb_Log2Ceiling gnuc y = Some (int m)" "y \<le> 2 ^ m"
    by blast
  have "n \<le> m"
  proof (cases "x \<le> 1")
    case True
    with n(2) show ?thesis by simp
  next
    case False
    with n(2) have "0 < n" and "2 ^ (n - 1) < x"
      by simp_all
    moreover from assms(2) m(2) have "x \<le> 2 ^ m"
      by simp
    ultimately show ?thesis
      by (rule pow2_bracket_le)
  qed
  with n(1) m(1) show ?thesis
    by simp
qed

theorem upb_Log2Ceiling_mono_witness:
  "(0::int) \<le> 3 \<and> (3::int) \<le> 1000 \<and> (1000::int) \<le> 2 ^ 30 \<and>
   (\<exists>a b. upb_Log2Ceiling True 3 = Some a \<and> upb_Log2Ceiling True 1000 = Some b \<and> a \<le> b)"
  using upb_Log2Ceiling_mono [of 3 1000 True] by simp

text \<open>
  C10. \<^verbatim>\<open>upb_Log2CeilingSize\<close> is idempotent between 0 and \<open>2 ^ 30\<close>: applying it to its
  own result returns that result again. Equivalently, \<^verbatim>\<open>upb_Log2Ceiling(2 ^ n)\<close> is \<open>n\<close> for
  every \<open>n\<close> from 0 to 30.
\<close>

theorem upb_Log2CeilingSize_idem:
  "(0 \<le> x \<and> x \<le> 2 ^ 30 \<longrightarrow>
      (\<exists>s. upb_Log2CeilingSize gnuc x = Some s \<and> upb_Log2CeilingSize gnuc s = Some s)) \<and>
   (n \<le> 30 \<longrightarrow> upb_Log2Ceiling gnuc (2 ^ n) = Some (int n))"
proof (intro conjI impI)
  assume "0 \<le> x \<and> x \<le> 2 ^ 30"
  then have "x \<le> 2 ^ 30" ..
  from Log2Ceiling_total [OF this, of gnuc]
  obtain k where k: "upb_Log2Ceiling gnuc x = Some (int k)" "k \<le> 30"
    by blast
  then have "upb_Log2CeilingSize gnuc x = Some (2 ^ k)"
    by (rule Log2CeilingSize_of_Log2Ceiling)
  moreover have "upb_Log2CeilingSize gnuc (2 ^ k) = Some (2 ^ k)"
    using Log2Ceiling_pow2 [OF k(2)] k(2) by (rule Log2CeilingSize_of_Log2Ceiling)
  ultimately show "\<exists>s. upb_Log2CeilingSize gnuc x = Some s \<and> upb_Log2CeilingSize gnuc s = Some s"
    by blast
next
  assume "n \<le> 30"
  then show "upb_Log2Ceiling gnuc (2 ^ n) = Some (int n)"
    by (rule Log2Ceiling_pow2)
qed

theorem upb_Log2CeilingSize_idem_witness:
  "(0::int) \<le> 5 \<and> (5::int) \<le> 2 ^ 30 \<and> (7::nat) \<le> 30 \<and>
   (\<exists>s. upb_Log2CeilingSize True 5 = Some s \<and> upb_Log2CeilingSize True s = Some s) \<and>
   upb_Log2Ceiling True (2 ^ 7) = Some (int 7)"
  using upb_Log2CeilingSize_idem [of 5 True 7] by simp

end
